theory Spec2Isabelle
  imports Main "HOL-Library.Char_ord" "HOL-Library.List_Lexorder"
begin

section \<open>The cookbook service of devdonalds.py\<close>

text \<open>
  A shallow embedding of \<^verbatim>\<open>src/backend/py_template/devdonalds.py\<close>: the name
  normaliser \<^verbatim>\<open>parse_handwriting\<close>, the creation path \<^verbatim>\<open>create_entry\<close> /
  \<^verbatim>\<open>validate_entry_data\<close> / \<^verbatim>\<open>process_ingredient\<close> / \<^verbatim>\<open>process_recipe\<close>, and the
  summary path \<^verbatim>\<open>summary\<close> / \<^verbatim>\<open>calculate_recipe_summary\<close>.

  Scope of the embedding. Strings are lists of ASCII characters: the Unicode tables
  behind \<^verbatim>\<open>str.isalpha\<close>, \<^verbatim>\<open>str.isspace\<close> and \<^verbatim>\<open>str.capitalize\<close> are not modelled,
  and a character outside ASCII counts as neither a letter nor whitespace. JSON numbers
  are Python's unbounded integers; floating-point numbers are not modelled. The module
  level dictionary \<^verbatim>\<open>recipe_store\<close> is passed explicitly. Exceptions are values.
\<close>

subsection \<open>Characters and strings as Python's str methods see them\<close>

definition isspace :: "char \<Rightarrow> bool" where
  \<comment> \<open>\<^verbatim>\<open>str.isspace\<close> on ASCII: TAB, LF, VT, FF, CR, FS, GS, RS, US and the space.\<close>
  "isspace c = (let n = (of_char c :: nat) in (9 \<le> n \<and> n \<le> 13) \<or> (28 \<le> n \<and> n \<le> 32))"

definition isalpha :: "char \<Rightarrow> bool" where
  "isalpha c = (let n = (of_char c :: nat) in (65 \<le> n \<and> n \<le> 90) \<or> (97 \<le> n \<and> n \<le> 122))"

definition upper :: "char \<Rightarrow> char" where
  "upper c = (let n = (of_char c :: nat) in if 97 \<le> n \<and> n \<le> 122 then char_of (n - 32) else c)"

definition lower :: "char \<Rightarrow> char" where
  "lower c = (let n = (of_char c :: nat) in if 65 \<le> n \<and> n \<le> 90 then char_of (n + 32) else c)"

definition strip :: "string \<Rightarrow> string" where
  \<comment> \<open>\<^verbatim>\<open>s.strip()\<close>: whitespace removed at both ends.\<close>
  "strip s = rev (dropWhile isspace (rev (dropWhile isspace s)))"

definition replace :: "char \<Rightarrow> char \<Rightarrow> string \<Rightarrow> string" where
  \<comment> \<open>\<^verbatim>\<open>s.replace(a, b)\<close> for one-character \<^verbatim>\<open>a\<close> and \<^verbatim>\<open>b\<close>.\<close>
  "replace a b s = map (\<lambda>c. if c = a then b else c) s"

fun split_from :: "string \<Rightarrow> string \<Rightarrow> string list" where
  \<comment> \<open>\<^verbatim>\<open>s.split()\<close> scanning left to right; the first argument is the word being read,
      reversed.\<close>
  "split_from cur [] = (if cur = [] then [] else [rev cur])"
| "split_from cur (c # cs) =
     (if isspace c then (if cur = [] then split_from [] cs else rev cur # split_from [] cs)
      else split_from (c # cur) cs)"

definition split :: "string \<Rightarrow> string list" where
  \<comment> \<open>\<^verbatim>\<open>s.split()\<close> with no separator: the maximal runs of non-whitespace.\<close>
  "split s = split_from [] s"

definition capitalize :: "string \<Rightarrow> string" where
  \<comment> \<open>\<^verbatim>\<open>word.capitalize()\<close>: first character upper case, the rest lower case.\<close>
  "capitalize w = (case w of [] \<Rightarrow> [] | c # cs \<Rightarrow> upper c # map lower cs)"

fun join :: "string list \<Rightarrow> string" where
  \<comment> \<open>\<^verbatim>\<open>' '.join(words)\<close>\<close>
  "join [] = []"
| "join [w] = w"
| "join (w # v # ws) = w @ CHR '' '' # join (v # ws)"

subsection \<open>Task 1: parse_handwriting\<close>

definition parse_handwriting :: "string \<Rightarrow> string option" where
  "parse_handwriting recipeName =
     (if recipeName = [] \<or> strip recipeName = [] then None
      else
        let processed = replace (CHR ''_'') (CHR '' '') (replace (CHR ''-'') (CHR '' '') recipeName);
            processed = filter (\<lambda>c. isalpha c \<or> isspace c) processed;
            words = split (strip processed)
        in if words = [] then None
           else Some (join (map capitalize words)))"

subsection \<open>JSON values, Python exceptions, dictionary keys\<close>

datatype json =
    JNull
  | JBool bool
  | JInt int
  | JStr string
  | JArr "json list"
  | JObj "(string \<times> json) list"

datatype py_error = ValueError | TypeError | KeyError | AttributeError | IndexError

datatype pykey = KNone | KInt int | KStr string

text \<open>
  A decoded JSON object is a Python dict: of two members with the same key the later
  one stays.
\<close>

definition dict_get :: "(string \<times> json) list \<Rightarrow> string \<Rightarrow> json option" where
  "dict_get kvs k = map_of (rev kvs) k"

fun truthy :: "json \<Rightarrow> bool" where
  \<comment> \<open>Python's truth value of a decoded JSON value.\<close>
  "truthy JNull = False"
| "truthy (JBool b) = b"
| "truthy (JInt i) = (i \<noteq> 0)"
| "truthy (JStr s) = (s \<noteq> [])"
| "truthy (JArr xs) = (xs \<noteq> [])"
| "truthy (JObj kvs) = (kvs \<noteq> [])"

fun as_int :: "json \<Rightarrow> int option" where
  \<comment> \<open>\<^verbatim>\<open>isinstance(v, int)\<close> and the integer it stands for: \<^verbatim>\<open>bool\<close> is a subclass of
      \<^verbatim>\<open>int\<close>, \<^verbatim>\<open>True == 1\<close> and \<^verbatim>\<open>False == 0\<close>.\<close>
  "as_int (JInt i) = Some i"
| "as_int (JBool b) = Some (if b then 1 else 0)"
| "as_int _ = None"

fun as_key :: "json \<Rightarrow> py_error + pykey" where
  \<comment> \<open>The value as a dictionary key or set member. Lists and dicts are unhashable
      (TypeError); \<^verbatim>\<open>True\<close> and \<^verbatim>\<open>1\<close>, \<^verbatim>\<open>False\<close> and \<^verbatim>\<open>0\<close> are the same key.\<close>
  "as_key JNull = Inr KNone"
| "as_key (JBool b) = Inr (KInt (if b then 1 else 0))"
| "as_key (JInt i) = Inr (KInt i)"
| "as_key (JStr s) = Inr (KStr s)"
| "as_key (JArr xs) = Inl TypeError"
| "as_key (JObj kvs) = Inl TypeError"

subsection \<open>Type definitions of the source\<close>

record RequiredItem =
  item_name :: pykey
  quantity :: int

datatype entry =
    Recipe (name: pykey) (required_items: "RequiredItem list")
  | Ingredient (name: pykey) (cook_time: int)

type_synonym store = "pykey \<rightharpoonup> entry"

text \<open>
  The display name \<^verbatim>\<open>parse_handwriting(data['name']) or data['name']\<close>. On a value that
  is not a string, \<^verbatim>\<open>parse_handwriting\<close> returns None when the value is falsy and raises
  AttributeError (no \<^verbatim>\<open>strip\<close>) otherwise. The creation path reaches this point only
  with a hashable name.
\<close>

fun display_name :: "json \<Rightarrow> py_error + pykey" where
  "display_name (JStr s) = (case parse_handwriting s of Some p \<Rightarrow> Inr (KStr p) | None \<Rightarrow> Inr (KStr s))"
| "display_name v = (if truthy v then Inl AttributeError else as_key v)"

subsection \<open>Task 2: create_entry\<close>

definition process_ingredient :: "(string \<times> json) list \<Rightarrow> json \<Rightarrow> py_error + (pykey \<times> entry) option" where
  \<comment> \<open>The second argument is \<^verbatim>\<open>data['name']\<close>, which the caller has found present.\<close>
  "process_ingredient data nm =
     (case (case dict_get data ''cookTime'' of None \<Rightarrow> None | Some v \<Rightarrow> as_int v) of
        None \<Rightarrow> Inr None
      | Some ct \<Rightarrow>
          if ct < 0 then Inr None
          else (case display_name nm of
                  Inl e \<Rightarrow> Inl e
                | Inr dn \<Rightarrow> (case as_key nm of
                               Inl e \<Rightarrow> Inl e
                             | Inr raw \<Rightarrow> Inr (Some (raw, Ingredient dn ct)))))"

fun check_items :: "json list \<Rightarrow> pykey set \<Rightarrow> RequiredItem list \<Rightarrow> py_error + RequiredItem list option" where
  \<comment> \<open>The \<^verbatim>\<open>for item in data['requiredItems']\<close> loop with its \<^verbatim>\<open>seen_items\<close> and
      \<^verbatim>\<open>required_items\<close> (here \<open>req_items\<close>).\<close>
  "check_items [] seen_items req_items = Inr (Some req_items)"
| "check_items (item # rest) seen_items req_items =
     (case item of
        JObj d \<Rightarrow>
          (case (dict_get d ''name'', dict_get d ''quantity'') of
             (Some n, Some q) \<Rightarrow>
               (case as_int q of
                  None \<Rightarrow> Inr None
                | Some qi \<Rightarrow>
                    if qi \<le> 0 then Inr None
                    else (case as_key n of
                            Inl e \<Rightarrow> Inl e
                          | Inr k \<Rightarrow>
                              if k \<in> seen_items then Inr None
                              else check_items rest (insert k seen_items)
                                     (req_items @ [\<lparr>item_name = k, quantity = qi\<rparr>])))
           | _ \<Rightarrow> Inr None)
      | _ \<Rightarrow> Inr None)"

definition process_recipe :: "(string \<times> json) list \<Rightarrow> json \<Rightarrow> py_error + (pykey \<times> entry) option" where
  "process_recipe data nm =
     (case dict_get data ''requiredItems'' of
        Some (JArr items) \<Rightarrow>
          (case check_items items {} [] of
             Inl e \<Rightarrow> Inl e
           | Inr None \<Rightarrow> Inr None
           | Inr (Some req_items) \<Rightarrow>
               (case display_name nm of
                  Inl e \<Rightarrow> Inl e
                | Inr dn \<Rightarrow> (case as_key nm of
                               Inl e \<Rightarrow> Inl e
                             | Inr raw \<Rightarrow> Inr (Some (raw, Recipe dn req_items)))))
      | _ \<Rightarrow> Inr None)"

text \<open>
  \<^verbatim>\<open>sub in s\<close> on strings: \<open>sub\<close> occurs in \<open>s\<close> as a contiguous piece.
\<close>

fun contains :: "string \<Rightarrow> string \<Rightarrow> bool" where
  "contains sub [] = (sub = [])"
| "contains sub (c # cs) = (take (length sub) (c # cs) = sub \<or> contains sub cs)"

text \<open>
  \<^verbatim>\<open>validate_entry_data\<close>. Data that is not a JSON object never yields an entry. A falsy
  value returns None at \<^verbatim>\<open>not data\<close>. On a list, \<^verbatim>\<open>'type' not in data\<close> asks for an
  element equal to the string, on a string for a substring; when both tests find what
  they look for, \<^verbatim>\<open>data['name']\<close> raises TypeError (the index is not an integer). On a
  number or \<^verbatim>\<open>true\<close> the test \<^verbatim>\<open>'type' not in data\<close> itself raises TypeError.
\<close>

definition validate_entry_data :: "store \<Rightarrow> json \<Rightarrow> py_error + (pykey \<times> entry) option" where
  "validate_entry_data recipe_store data =
     (case data of
        JObj d \<Rightarrow>
          (if d = [] then Inr None
           else case (dict_get d ''type'', dict_get d ''name'') of
             (Some ty, Some nm) \<Rightarrow>
               (case as_key nm of
                  Inl e \<Rightarrow> Inl e
                | Inr k \<Rightarrow>
                    if k \<in> dom recipe_store then Inr None
                    else if ty = JStr ''ingredient'' then process_ingredient d nm
                    else if ty = JStr ''recipe'' then process_recipe d nm
                    else Inr None)
           | _ \<Rightarrow> Inr None)
      | JArr xs \<Rightarrow>
          (if xs = [] \<or> JStr ''type'' \<notin> set xs \<or> JStr ''name'' \<notin> set xs then Inr None
           else Inl TypeError)
      | JStr s \<Rightarrow>
          (if s = [] \<or> \<not> contains ''type'' s \<or> \<not> contains ''name'' s then Inr None
           else Inl TypeError)
      | _ \<Rightarrow> (if truthy data then Inl TypeError else Inr None))"

datatype response = OK | Rejected | Uncaught py_error

definition create_entry :: "store \<Rightarrow> json \<Rightarrow> store \<times> response" where
  \<comment> \<open>The store after the request and the answer: 200, 400, or an exception that the
      \<^verbatim>\<open>except (ValueError, TypeError, KeyError)\<close> clause lets through.\<close>
  "create_entry recipe_store data =
     (case validate_entry_data recipe_store data of
        Inr None \<Rightarrow> (recipe_store, Rejected)
      | Inr (Some (raw_name, e)) \<Rightarrow> (recipe_store(raw_name \<mapsto> e), OK)
      | Inl ValueError \<Rightarrow> (recipe_store, Rejected)
      | Inl TypeError \<Rightarrow> (recipe_store, Rejected)
      | Inl KeyError \<Rightarrow> (recipe_store, Rejected)
      | Inl e \<Rightarrow> (recipe_store, Uncaught e))"

subsection \<open>Task 3: summary\<close>

text \<open>
  The \<^verbatim>\<open>Counter\<close> as the list of its items in insertion order; a key read before it was
  written counts 0.
\<close>

fun counter_add :: "(pykey \<times> int) list \<Rightarrow> pykey \<Rightarrow> int \<Rightarrow> (pykey \<times> int) list" where
  \<comment> \<open>\<^verbatim>\<open>counter[k] += m\<close>\<close>
  "counter_add [] k m = [(k, 0 + m)]"
| "counter_add ((k', v) # cs) k m =
     (if k' = k then (k', v + m) # cs else (k', v) # counter_add cs k m)"

definition counter_get :: "(pykey \<times> int) list \<Rightarrow> pykey \<Rightarrow> int" where
  \<comment> \<open>\<^verbatim>\<open>counter[k]\<close>\<close>
  "counter_get cs k = (case map_of cs k of None \<Rightarrow> 0 | Some v \<Rightarrow> v)"

text \<open>
  The state of the \<^verbatim>\<open>while stack\<close> loop. The head of \<open>stack\<close> is the top of the stack,
  that is the end of the Python list, where \<^verbatim>\<open>pop\<close> and \<^verbatim>\<open>append\<close> work.
\<close>

record summary_state =
  stack :: "(entry \<times> int) list"
  ingredient_counts :: "(pykey \<times> int) list"
  total_cooking_time :: int

fun push_items :: "store \<Rightarrow> int \<Rightarrow> RequiredItem list \<Rightarrow> (entry \<times> int) list \<Rightarrow> py_error + (entry \<times> int) list" where
  \<comment> \<open>The body of \<^verbatim>\<open>for req_item in reversed(...)\<close>, over the items in the order given.\<close>
  "push_items recipe_store multiplier [] stk = Inr stk"
| "push_items recipe_store multiplier (req_item # rest) stk =
     (case recipe_store (item_name req_item) of
        None \<Rightarrow> Inl ValueError
      | Some required_entry \<Rightarrow>
          push_items recipe_store multiplier rest
            ((required_entry, multiplier * quantity req_item) # stk))"

definition loop_body :: "store \<Rightarrow> summary_state \<Rightarrow> py_error + summary_state" where
  \<comment> \<open>One turn of the loop. The branch \<^verbatim>\<open>raise TypeError\<close> of the source has no case here:
      an entry is an Ingredient or a Recipe.\<close>
  "loop_body recipe_store s =
     (case stack s of
        [] \<Rightarrow> Inl IndexError
      | (current_entry, multiplier) # rest \<Rightarrow>
          (case current_entry of
             Ingredient n ct \<Rightarrow>
               Inr \<lparr>stack = rest,
                    ingredient_counts = counter_add (ingredient_counts s) n multiplier,
                    total_cooking_time = total_cooking_time s + ct * multiplier\<rparr>
           | Recipe n items \<Rightarrow>
               (case push_items recipe_store multiplier (rev items) rest of
                  Inl e \<Rightarrow> Inl e
                | Inr stk \<Rightarrow> Inr (s\<lparr>stack := stk\<rparr>))))"

partial_function (option) while_stack :: "store \<Rightarrow> summary_state \<Rightarrow> (py_error + summary_state) option" where
  "while_stack recipe_store s =
     (if stack s = [] then Some (Inr s)
      else case loop_body recipe_store s of
             Inl e \<Rightarrow> Some (Inl e)
           | Inr s' \<Rightarrow> while_stack recipe_store s')"

declare while_stack.simps [code]

fun the_str :: "pykey \<Rightarrow> string" where
  "the_str (KStr s) = s"
| "the_str _ = []"

fun the_int :: "pykey \<Rightarrow> int" where
  "the_int (KInt i) = i"
| "the_int _ = 0"

definition sorted_items :: "(pykey \<times> int) list \<Rightarrow> py_error + (pykey \<times> int) list" where
  \<comment> \<open>\<^verbatim>\<open>sorted(counter.items())\<close>. The keys are distinct, so the pairs are ordered by key.
      Strings compare with strings and integers with integers; any other comparison
      raises TypeError, and a list of two or more items makes every item take part in
      one.\<close>
  "sorted_items cs =
     (if length cs \<le> 1 then Inr cs
      else if list_all (\<lambda>(k, v). case k of KStr _ \<Rightarrow> True | _ \<Rightarrow> False) cs
        then Inr (sort_key (\<lambda>(k, v). the_str k) cs)
      else if list_all (\<lambda>(k, v). case k of KInt _ \<Rightarrow> True | _ \<Rightarrow> False) cs
        then Inr (sort_key (\<lambda>(k, v). the_int k) cs)
      else Inl TypeError)"

record summary_data =
  summary_name :: pykey
  cookTime :: int
  ingredients :: "(pykey \<times> int) list"

definition calculate_recipe_summary :: "store \<Rightarrow> entry \<Rightarrow> (py_error + summary_data) option" where
  \<comment> \<open>None: the loop never ends.\<close>
  "calculate_recipe_summary recipe_store recipe =
     (case while_stack recipe_store
             \<lparr>stack = [(recipe, 1)], ingredient_counts = [], total_cooking_time = 0\<rparr> of
        None \<Rightarrow> None
      | Some (Inl e) \<Rightarrow> Some (Inl e)
      | Some (Inr s) \<Rightarrow>
          (case sorted_items (ingredient_counts s) of
             Inl e \<Rightarrow> Some (Inl e)
           | Inr items \<Rightarrow>
               Some (Inr \<lparr>summary_name = name recipe,
                          cookTime = total_cooking_time s,
                          ingredients = items\<rparr>)))"

datatype summary_response = Summary summary_data | SummaryRejected

definition summary :: "store \<Rightarrow> string option \<Rightarrow> summary_response option" where
  \<comment> \<open>The argument is \<^verbatim>\<open>request.args.get('name')\<close>: a string or None. The answer is the
      summary with 200 or the empty body with 400; \<^verbatim>\<open>except Exception\<close> catches every
      exception of the model.\<close>
  "summary recipe_store recipe_name =
     (case recipe_name of
        None \<Rightarrow> Some SummaryRejected
      | Some n \<Rightarrow>
          if n = [] \<or> KStr n \<notin> dom recipe_store then Some SummaryRejected
          else (case recipe_store (KStr n) of
                  Some (Recipe dn items) \<Rightarrow>
                    (case calculate_recipe_summary recipe_store (Recipe dn items) of
                       None \<Rightarrow> None
                     | Some (Inl e) \<Rightarrow> Some SummaryRejected
                     | Some (Inr d) \<Rightarrow> Some (Summary d))
                | _ \<Rightarrow> Some SummaryRejected))"

subsection \<open>Requests used as examples, and the validity of the type-specific fields\<close>

definition ingredient_request :: "string \<Rightarrow> int \<Rightarrow> json" where
  "ingredient_request n ct = JObj [(''type'', JStr ''ingredient''), (''name'', JStr n), (''cookTime'', JInt ct)]"

definition recipe_request :: "string \<Rightarrow> (string \<times> int) list \<Rightarrow> json" where
  "recipe_request n its =
     JObj [(''type'', JStr ''recipe''), (''name'', JStr n),
           (''requiredItems'', JArr (map (\<lambda>(k, q). JObj [(''name'', JStr k), (''quantity'', JInt q)]) its))]"

text \<open>
  What the dispatch of \<^verbatim>\<open>validate_entry_data\<close> on \<^verbatim>\<open>type\<close> accepts, the name left aside:
  an ingredient with an integer \<^verbatim>\<open>cookTime\<close> that is not negative, a recipe whose
  \<^verbatim>\<open>requiredItems\<close> is a list that the loop of \<^verbatim>\<open>process_recipe\<close> accepts.
\<close>

definition fields_valid :: "(string \<times> json) list \<Rightarrow> bool" where
  "fields_valid d =
     (case dict_get d ''type'' of
        None \<Rightarrow> False
      | Some ty \<Rightarrow>
          if ty = JStr ''ingredient'' then
            (case dict_get d ''cookTime'' of
               None \<Rightarrow> False
             | Some v \<Rightarrow> (case as_int v of None \<Rightarrow> False | Some ct \<Rightarrow> 0 \<le> ct))
          else if ty = JStr ''recipe'' then
            (case dict_get d ''requiredItems'' of
               Some (JArr items) \<Rightarrow>
                 (case check_items items {} [] of Inr (Some its) \<Rightarrow> True | _ \<Rightarrow> False)
             | _ \<Rightarrow> False)
          else False)"

subsection \<open>The loop turn by turn, and example stores\<close>

text \<open>
  The state in which \<^verbatim>\<open>calculate_recipe_summary\<close> enters the loop, and the state after
  a number of turns of the loop (it stays where the loop has ended).
\<close>

definition initial :: "entry \<Rightarrow> summary_state" where
  "initial recipe = \<lparr>stack = [(recipe, 1)], ingredient_counts = [], total_cooking_time = 0\<rparr>"

fun turns :: "store \<Rightarrow> nat \<Rightarrow> summary_state \<Rightarrow> py_error + summary_state" where
  "turns recipe_store 0 s = Inr s"
| "turns recipe_store (Suc k) s =
     (if stack s = [] then Inr s
      else case loop_body recipe_store s of
             Inl e \<Rightarrow> Inl e
           | Inr s' \<Rightarrow> turns recipe_store k s')"

definition pancake_store :: store where
  "pancake_store =
     [KStr ''Egg'' \<mapsto> Ingredient (KStr ''Egg'') 5,
      KStr ''Flour'' \<mapsto> Ingredient (KStr ''Flour'') 2,
      KStr ''Batter'' \<mapsto> Recipe (KStr ''Batter'')
         [\<lparr>item_name = KStr ''Egg'', quantity = 2\<rparr>, \<lparr>item_name = KStr ''Flour'', quantity = 1\<rparr>],
      KStr ''Pancake'' \<mapsto> Recipe (KStr ''Pancake'') [\<lparr>item_name = KStr ''Batter'', quantity = 3\<rparr>]]"

definition soup_store :: store where
  "soup_store = [KStr ''Soup'' \<mapsto> Recipe (KStr ''Soup'') [\<lparr>item_name = KStr ''Stock'', quantity = 1\<rparr>]]"

definition stew_store :: store where
  "stew_store =
     [KStr ''Salt'' \<mapsto> Ingredient (KStr ''Salt'') 1,
      KStr ''Broth'' \<mapsto> Recipe (KStr ''Broth'') [\<lparr>item_name = KStr ''Water'', quantity = 1\<rparr>],
      KStr ''Stew'' \<mapsto> Recipe (KStr ''Stew'')
         [\<lparr>item_name = KStr ''Salt'', quantity = 1\<rparr>, \<lparr>item_name = KStr ''Broth'', quantity = 2\<rparr>]]"

subsection \<open>The composition graph and the expansion of an entry\<close>

text \<open>
  The entries an entry requires directly (\<open>children\<close>), the relation between a child and
  its parent, the entries reachable from a root, and the two conditions on a store:
  no reachable entry requires itself through any number of steps, and every item name
  met on the way is a key of the store. \<open>expands\<close> is the big-step reading of the
  traversal: the visits to ingredients (name, factor, cook time) that one unit of an
  entry comes to, in the order of the loop; \<open>run_visits\<close> replays them on the counter
  and the running total with a multiplier.
\<close>

fun items_of :: "entry \<Rightarrow> RequiredItem list" where
  "items_of (Recipe n items) = items"
| "items_of (Ingredient n ct) = []"

definition children :: "store \<Rightarrow> entry \<Rightarrow> entry list" where
  "children rs e = List.map_filter (\<lambda>it. rs (item_name it)) (items_of e)"

definition requirement :: "store \<Rightarrow> (entry \<times> entry) set" where
  "requirement rs = {(c, p). c \<in> set (children rs p)}"

definition reachable :: "store \<Rightarrow> entry \<Rightarrow> entry set" where
  "reachable rs root = {e. (e, root) \<in> (requirement rs)\<^sup>*}"

definition acyclic_from :: "store \<Rightarrow> entry \<Rightarrow> bool" where
  "acyclic_from rs root = (\<forall>e\<in>reachable rs root. (e, e) \<notin> (requirement rs)\<^sup>+)"

definition resolvable :: "store \<Rightarrow> entry \<Rightarrow> bool" where
  "resolvable rs root = (\<forall>e\<in>reachable rs root. \<forall>it\<in>set (items_of e). item_name it \<in> dom rs)"

type_synonym visit = "pykey \<times> int \<times> int"

fun run_visits :: "int \<Rightarrow> visit list \<Rightarrow> (pykey \<times> int) list \<times> int \<Rightarrow> (pykey \<times> int) list \<times> int" where
  "run_visits m [] ct = ct"
| "run_visits m ((n, q, cook) # vs) (c, t) = run_visits m vs (counter_add c n (m * q), t + cook * (m * q))"

definition scale :: "int \<Rightarrow> visit list \<Rightarrow> visit list" where
  "scale q vs = map (\<lambda>(n, q', cook). (n, q * q', cook)) vs"

inductive expands :: "store \<Rightarrow> entry \<Rightarrow> visit list \<Rightarrow> bool" for rs where
  ingredient: "expands rs (Ingredient n ct) [(n, 1, ct)]"
| recipe: "list_all2 (\<lambda>it vs. \<exists>c. rs (item_name it) = Some c \<and> expands rs c vs) items vss \<Longrightarrow>
           expands rs (Recipe n items) (concat (map2 (\<lambda>it vs. scale (quantity it) vs) items vss))"

definition ouroboros :: entry where
  "ouroboros = Recipe (KStr ''Ouroboros'') [\<lparr>item_name = KStr ''Ouroboros'', quantity = 1\<rparr>]"

definition ouroboros_store :: store where
  "ouroboros_store = [KStr ''Ouroboros'' \<mapsto> ouroboros]"

definition pancake :: entry where
  "pancake = Recipe (KStr ''Pancake'') [\<lparr>item_name = KStr ''Batter'', quantity = 3\<rparr>]"

definition batter :: entry where
  "batter = Recipe (KStr ''Batter'')
     [\<lparr>item_name = KStr ''Egg'', quantity = 2\<rparr>, \<lparr>item_name = KStr ''Flour'', quantity = 1\<rparr>]"

definition st :: "(entry \<times> int) list \<Rightarrow> (pykey \<times> int) list \<times> int \<Rightarrow> summary_state" where
  "st stk ct = \<lparr>stack = stk, ingredient_counts = fst ct, total_cooking_time = snd ct\<rparr>"

subsection \<open>What a list of visits adds up to\<close>

text \<open>
  The count a list of visits gives an ingredient name, its cook time, and the counter
  that one unit of it leaves behind.
\<close>

definition vcount :: "visit list \<Rightarrow> pykey \<Rightarrow> int" where
  "vcount vs x = (\<Sum>(n, q, cook)\<leftarrow>vs. if n = x then q else 0)"

definition vtime :: "visit list \<Rightarrow> int" where
  "vtime vs = (\<Sum>(n, q, cook)\<leftarrow>vs. cook * q)"

definition tally :: "visit list \<Rightarrow> (pykey \<times> int) list" where
  "tally vs = fst (run_visits 1 vs ([], 0))"

inductive_cases expands_RecipeE: "expands rs (Recipe n items) vs"

section \<open>The name normaliser\<close>












section \<open>Creating entries\<close>

lemma dict_get_Nil [simp]: "dict_get [] k = None"
  by (simp add: dict_get_def)

lemma as_key_error: "as_key v = Inl e \<Longrightarrow> e = TypeError"
  by (cases v) auto

lemma check_items_error: "check_items items seen acc = Inl e \<Longrightarrow> e = TypeError"
  by (induction items seen acc rule: check_items.induct)
     (auto split: json.splits option.splits if_splits sum.splits dest: as_key_error)

lemma check_items_seen:
  "j < length items \<Longrightarrow> items ! j = JObj dj \<Longrightarrow> dict_get dj ''name'' = Some n \<Longrightarrow>
   as_key n = Inr k \<Longrightarrow> k \<in> seen \<Longrightarrow> check_items items seen acc \<noteq> Inr (Some r)"
proof (induction items seen acc arbitrary: j rule: check_items.induct)
  case (1 seen acc)
  then show ?case by simp
next
  case (2 item rest seen acc)
  show ?case
  proof (cases j)
    case 0
    with 2 show ?thesis by (auto split: option.splits)
  next
    case (Suc j')
    with 2 show ?thesis by (auto split: json.splits option.splits sum.splits)
  qed
qed

lemma check_items_dup:
  "i < j \<Longrightarrow> j < length items \<Longrightarrow> items ! i = JObj di \<Longrightarrow> items ! j = JObj dj \<Longrightarrow>
   dict_get di ''name'' = Some n \<Longrightarrow> dict_get dj ''name'' = Some n \<Longrightarrow>
   check_items items seen acc \<noteq> Inr (Some r)"
proof (induction items seen acc arbitrary: i j rule: check_items.induct)
  case (1 seen acc)
  then show ?case by simp
next
  case (2 item rest seen acc)
  obtain j' where j: "j = Suc j'" using 2 by (cases j) auto
  show ?case
  proof (cases i)
    case 0
    show ?thesis
    proof (cases "as_key n")
      case (Inl e)
      with 2 0 show ?thesis by (auto split: option.splits)
    next
      case (Inr k)
      with 2 0 j check_items_seen [of j' rest dj n k "insert k seen"]
      show ?thesis by (auto split: option.splits)
    qed
  next
    case (Suc i')
    with 2 j show ?thesis by (auto split: json.splits option.splits sum.splits)
  qed
qed

text \<open>
  Claim C10. A creation request that has a \<^verbatim>\<open>type\<close> field equal to neither "ingredient"
  nor "recipe" is rejected, and the store after the request is the store before it.
\<close>

theorem unknown_type_rejected:
  assumes "dict_get d ''type'' = Some ty" "ty \<noteq> JStr ''ingredient''" "ty \<noteq> JStr ''recipe''"
  shows "create_entry rs (JObj d) = (rs, Rejected)"
proof -
  from assms(1) have "d \<noteq> []" by auto
  with assms show ?thesis
    unfolding create_entry_def validate_entry_data_def
    by (auto split: option.splits sum.splits py_error.splits dest: as_key_error)
qed

theorem unknown_type_rejected_witness:
  "create_entry [KStr ''Egg'' \<mapsto> Ingredient (KStr ''Egg'') 5]
     (JObj [(''type'', JStr ''drink''), (''name'', JStr ''Tea''), (''cookTime'', JInt 1)])
   = ([KStr ''Egg'' \<mapsto> Ingredient (KStr ''Egg'') 5], Rejected)"
  by (rule unknown_type_rejected [where ty = "JStr ''drink''"]) (simp_all add: dict_get_def)

lemma process_recipe_dup:
  assumes "dict_get d ''requiredItems'' = Some (JArr items)"
    "i < j" "j < length items" "items ! i = JObj di" "items ! j = JObj dj"
    "dict_get di ''name'' = Some n" "dict_get dj ''name'' = Some n"
  shows "process_recipe d nm = Inr None \<or> process_recipe d nm = Inl TypeError"
proof -
  have "check_items items {} [] \<noteq> Inr (Some r)" for r
    using check_items_dup [OF assms(2-7)] by blast
  with assms(1) show ?thesis
    unfolding process_recipe_def
    by (auto split: sum.splits option.splits dest: check_items_error)
qed

text \<open>
  Claim C9. A recipe request in whose \<^verbatim>\<open>requiredItems\<close> two entries carry the same name
  is rejected whatever their quantities are (even when they are missing or invalid) and
  whatever the store holds; \<^verbatim>\<open>process_recipe\<close>, which makes the check, has no access to
  the store and accepts such a request under no name.
\<close>

theorem duplicate_required_item_rejected:
  assumes "dict_get d ''type'' = Some (JStr ''recipe'')"
    "dict_get d ''requiredItems'' = Some (JArr items)"
    "i < j" "j < length items" "items ! i = JObj di" "items ! j = JObj dj"
    "dict_get di ''name'' = Some n" "dict_get dj ''name'' = Some n"
  shows "create_entry rs (JObj d) = (rs, Rejected) \<and> (\<forall>nm x. process_recipe d nm \<noteq> Inr (Some x))"
proof
  have pr: "process_recipe d nm = Inr None \<or> process_recipe d nm = Inl TypeError" for nm
    by (rule process_recipe_dup [OF assms(2-8)])
  then show "\<forall>nm x. process_recipe d nm \<noteq> Inr (Some x)" by (metis Inl_Inr_False option.distinct(1) sum.inject(2))
  from assms(1) have ne: "d \<noteq> []" by auto
  show "create_entry rs (JObj d) = (rs, Rejected)"
  proof (cases "dict_get d ''name''")
    case None
    with ne assms(1) show ?thesis
      unfolding create_entry_def validate_entry_data_def by simp
  next
    case (Some nm)
    show ?thesis
    proof (cases "as_key nm")
      case (Inl e)
      with as_key_error [OF Inl] Some ne assms(1) show ?thesis
        unfolding create_entry_def validate_entry_data_def by simp
    next
      case (Inr k)
      with Some ne assms(1) pr [of nm] show ?thesis
        unfolding create_entry_def validate_entry_data_def by auto
    qed
  qed
qed

theorem duplicate_required_item_rejected_witness:
  "create_entry Map.empty (recipe_request ''Mix'' [(''Egg'', 1), (''Flour'', 2), (''Egg'', 3)])
     = (Map.empty, Rejected) \<and>
   (\<forall>nm x. process_recipe
      [(''type'', JStr ''recipe''), (''name'', JStr ''Mix''),
       (''requiredItems'', JArr (map (\<lambda>(k, q). JObj [(''name'', JStr k), (''quantity'', JInt q)])
          [(''Egg'', 1), (''Flour'', 2), (''Egg'', 3)]))] nm \<noteq> Inr (Some x))"
  unfolding recipe_request_def
  by (rule duplicate_required_item_rejected
        [where i = 0 and j = 2 and n = "JStr ''Egg''"
           and di = "[(''name'', JStr ''Egg''), (''quantity'', JInt 1)]"
           and dj = "[(''name'', JStr ''Egg''), (''quantity'', JInt 3)]"
           and items = "[JObj [(''name'', JStr ''Egg''), (''quantity'', JInt 1)],
              JObj [(''name'', JStr ''Flour''), (''quantity'', JInt 2)],
              JObj [(''name'', JStr ''Egg''), (''quantity'', JInt 3)]]"])
     (simp_all add: dict_get_def)

lemma validate_accepts:
  assumes "validate_entry_data rs (JObj d) = Inr (Some (raw, e))"
  shows "\<exists>nm. dict_get d ''name'' = Some nm \<and> as_key nm = Inr raw \<and> raw \<notin> dom rs"
  using assms unfolding validate_entry_data_def
  by (auto split: if_splits option.splits sum.splits
      simp: process_ingredient_def process_recipe_def split: json.splits)

lemma create_entry_OK:
  assumes "create_entry rs data = (rs', OK)"
  shows "\<exists>raw e. validate_entry_data rs data = Inr (Some (raw, e)) \<and> rs' = rs(raw \<mapsto> e)"
  using assms unfolding create_entry_def
  by (auto split: sum.splits option.splits py_error.splits)

text \<open>
  Claim C8, amended. Of two creation requests with the same raw name, when the first is
  accepted the second is rejected, whatever the types and other fields of the two are,
  and the store is left as the first request made it.
\<close>

theorem second_insertion_rejected:
  assumes "dict_get d1 ''name'' = Some n" "dict_get d2 ''name'' = Some n"
    and "create_entry rs (JObj d1) = (rs1, OK)"
  shows "create_entry rs1 (JObj d2) = (rs1, Rejected)"
proof -
  from create_entry_OK [OF assms(3)] obtain raw e where
    v: "validate_entry_data rs (JObj d1) = Inr (Some (raw, e))" and rs1: "rs1 = rs(raw \<mapsto> e)"
    by blast
  from validate_accepts [OF v] assms(1) have k: "as_key n = Inr raw" by auto
  from assms(2) have "d2 \<noteq> []" by auto
  with assms(2) k rs1 show ?thesis
    unfolding create_entry_def validate_entry_data_def
    by (auto split: option.splits)
qed

lemma parse_Egg: "parse_handwriting ''Egg'' = Some ''Egg''"
  by code_simp

theorem second_insertion_rejected_witness:
  "create_entry [KStr ''Egg'' \<mapsto> Ingredient (KStr ''Egg'') 5] (recipe_request ''Egg'' [])
   = ([KStr ''Egg'' \<mapsto> Ingredient (KStr ''Egg'') 5], Rejected)"
proof -
  have "create_entry Map.empty (ingredient_request ''Egg'' 5)
        = ([KStr ''Egg'' \<mapsto> Ingredient (KStr ''Egg'') 5], OK)"
    by (simp add: create_entry_def validate_entry_data_def process_ingredient_def
        ingredient_request_def dict_get_def parse_Egg)
  then show ?thesis
    unfolding ingredient_request_def recipe_request_def
    by (rule second_insertion_rejected [rotated 2]) (simp_all add: dict_get_def)
qed

text \<open>
  Claim C8 as stated fails: the first request for "Egg" is rejected for its negative
  \<^verbatim>\<open>cookTime\<close>, and the second request with the same raw name is accepted.
\<close>

theorem second_insertion_accepted_after_rejection:
  "create_entry Map.empty (ingredient_request ''Egg'' (- 1)) = (Map.empty, Rejected) \<and>
   create_entry Map.empty (ingredient_request ''Egg'' 5)
     = ([KStr ''Egg'' \<mapsto> Ingredient (KStr ''Egg'') 5], OK)"
  by (simp add: create_entry_def validate_entry_data_def process_ingredient_def
      ingredient_request_def dict_get_def parse_Egg)

text \<open>
  Claim C4. A creation request whose name \<^verbatim>\<open>parse_handwriting\<close> rejects, whose raw name is
  not yet a key and whose other fields are valid is accepted: the entry is stored under
  the raw name, and its display name is the raw name as well.
\<close>

theorem normalization_failure_not_fatal:
  assumes "dict_get d ''name'' = Some (JStr s)" "parse_handwriting s = None" "KStr s \<notin> dom rs"
  shows "(dict_get d ''type'' = Some (JStr ''ingredient'') \<and> dict_get d ''cookTime'' = Some v \<and>
            as_int v = Some ct \<and> 0 \<le> ct
          \<longrightarrow> create_entry rs (JObj d) = (rs(KStr s \<mapsto> Ingredient (KStr s) ct), OK)) \<and>
         (dict_get d ''type'' = Some (JStr ''recipe'') \<and>
            dict_get d ''requiredItems'' = Some (JArr items) \<and>
            check_items items {} [] = Inr (Some its)
          \<longrightarrow> create_entry rs (JObj d) = (rs(KStr s \<mapsto> Recipe (KStr s) its), OK))"
proof -
  from assms(1) have "d \<noteq> []" by auto
  with assms show ?thesis
    unfolding create_entry_def validate_entry_data_def process_ingredient_def process_recipe_def
    by auto
qed

lemma parse_no_letters: "parse_handwriting ''4-2'' = None"
  by code_simp

theorem normalization_failure_not_fatal_witness:
  "create_entry Map.empty (ingredient_request ''4-2'' 3)
     = ([KStr ''4-2'' \<mapsto> Ingredient (KStr ''4-2'') 3], OK) \<and>
   create_entry Map.empty (recipe_request ''4-2'' [(''Egg'', 2)])
     = ([KStr ''4-2'' \<mapsto> Recipe (KStr ''4-2'') [\<lparr>item_name = KStr ''Egg'', quantity = 2\<rparr>]], OK)"
proof -
  have a: "create_entry Map.empty (ingredient_request ''4-2'' 3)
     = ([KStr ''4-2'' \<mapsto> Ingredient (KStr ''4-2'') 3], OK)"
    using normalization_failure_not_fatal
      [where d = "[(''type'', JStr ''ingredient''), (''name'', JStr ''4-2''), (''cookTime'', JInt 3)]"
         and s = "''4-2''" and rs = Map.empty and v = "JInt 3" and ct = 3]
    by (simp add: ingredient_request_def dict_get_def parse_no_letters)
  have b: "create_entry Map.empty (recipe_request ''4-2'' [(''Egg'', 2)])
     = ([KStr ''4-2'' \<mapsto> Recipe (KStr ''4-2'') [\<lparr>item_name = KStr ''Egg'', quantity = 2\<rparr>]], OK)"
    using normalization_failure_not_fatal
      [where d = "[(''type'', JStr ''recipe''), (''name'', JStr ''4-2''),
                   (''requiredItems'', JArr [JObj [(''name'', JStr ''Egg''), (''quantity'', JInt 2)]])]"
         and s = "''4-2''" and rs = Map.empty
         and items = "[JObj [(''name'', JStr ''Egg''), (''quantity'', JInt 2)]]"
         and its = "[\<lparr>item_name = KStr ''Egg'', quantity = 2\<rparr>]"]
    by (simp add: recipe_request_def dict_get_def parse_no_letters)
  from a b show ?thesis by (rule conjI)
qed

lemma strip_all_space:
  assumes "list_all isspace s"
  shows "strip s = []"
  using assms by (auto simp: strip_def list_all_iff dest: set_dropWhileD)

lemma parse_blank: "s = [] \<or> list_all isspace s \<Longrightarrow> parse_handwriting s = None"
  by (auto simp: parse_handwriting_def strip_all_space)

text \<open>
  Claim C5, amended. A creation request whose name is empty, consists of whitespace or
  normalises to nothing is not rejected for that: it is rejected, the store unchanged,
  exactly when the raw name is already a key or the type-specific fields are invalid;
  otherwise it is accepted and the entry is stored under the raw name, which is its
  display name too.
\<close>

theorem unnormalizable_name_outcome:
  assumes "dict_get d ''name'' = Some (JStr s)"
    and "s = [] \<or> list_all isspace s \<or> parse_handwriting s = None"
  shows "(create_entry rs (JObj d) = (rs, Rejected) \<longleftrightarrow> KStr s \<in> dom rs \<or> \<not> fields_valid d) \<and>
         (create_entry rs (JObj d) = (rs, Rejected) \<or>
          (\<exists>e. create_entry rs (JObj d) = (rs(KStr s \<mapsto> e), OK) \<and> name e = KStr s))"
proof -
  from assms(2) have p: "parse_handwriting s = None" using parse_blank by auto
  from assms(1) have ne: "d \<noteq> []" by auto
  show ?thesis
  proof (cases "KStr s \<in> dom rs")
    case True
    with assms(1) ne show ?thesis
      unfolding create_entry_def validate_entry_data_def
      by (auto split: option.splits)
  next
    case False
    show ?thesis
    proof (cases "fields_valid d")
      case True
      with False assms(1) ne p show ?thesis
        unfolding create_entry_def validate_entry_data_def process_ingredient_def
          process_recipe_def fields_valid_def
        by (auto split: option.splits if_splits json.splits sum.splits)
    next
      case nv: False
      have "validate_entry_data rs (JObj d) = Inr None \<or> validate_entry_data rs (JObj d) = Inl TypeError"
        using nv False assms(1) ne p
        unfolding validate_entry_data_def process_ingredient_def
          process_recipe_def fields_valid_def
        by (auto split: option.splits if_splits json.splits sum.splits dest: check_items_error)
      with nv False show ?thesis unfolding create_entry_def by auto
    qed
  qed
qed

lemma parse_spaces: "parse_handwriting ''   '' = None"
  by code_simp

theorem unnormalizable_name_outcome_witness:
  "create_entry Map.empty (ingredient_request ''   '' 1) \<noteq> (Map.empty, Rejected) \<and>
   create_entry Map.empty (ingredient_request ''   '' (- 1)) = (Map.empty, Rejected)"
proof -
  have v: "fields_valid [(''type'', JStr ''ingredient''), (''name'', JStr ''   ''), (''cookTime'', JInt 1)]"
    by (simp add: fields_valid_def dict_get_def)
  have nv: "\<not> fields_valid [(''type'', JStr ''ingredient''), (''name'', JStr ''   ''), (''cookTime'', JInt (- 1))]"
    by (simp add: fields_valid_def dict_get_def)
  have sp: "''   '' = [] \<or> list_all isspace ''   '' \<or> parse_handwriting ''   '' = None"
    by (simp add: parse_spaces)
  have a: "create_entry Map.empty (ingredient_request ''   '' 1) \<noteq> (Map.empty, Rejected)"
    using unnormalizable_name_outcome [where s = "''   ''" and rs = Map.empty
        and d = "[(''type'', JStr ''ingredient''), (''name'', JStr ''   ''), (''cookTime'', JInt 1)]", OF _ sp] v
    by (simp add: ingredient_request_def dict_get_def)
  have b: "create_entry Map.empty (ingredient_request ''   '' (- 1)) = (Map.empty, Rejected)"
    using unnormalizable_name_outcome [where s = "''   ''" and rs = Map.empty
        and d = "[(''type'', JStr ''ingredient''), (''name'', JStr ''   ''), (''cookTime'', JInt (- 1))]", OF _ sp] nv
    by (simp add: ingredient_request_def dict_get_def)
  from a b show ?thesis by (rule conjI)
qed

text \<open>
  Claim C5 as stated fails: requests with the empty name, a name of three spaces and the
  name "4-2" are all accepted on the empty store and change it.
\<close>

theorem unnormalizable_name_accepted:
  "create_entry Map.empty (ingredient_request '''' 1)
     = ([KStr '''' \<mapsto> Ingredient (KStr '''') 1], OK) \<and>
   create_entry Map.empty (ingredient_request ''   '' 1)
     = ([KStr ''   '' \<mapsto> Ingredient (KStr ''   '') 1], OK) \<and>
   create_entry Map.empty (ingredient_request ''4-2'' 1)
     = ([KStr ''4-2'' \<mapsto> Ingredient (KStr ''4-2'') 1], OK)"
proof -
  have "parse_handwriting '''' = None" by code_simp
  then show ?thesis
    by (simp add: create_entry_def validate_entry_data_def process_ingredient_def
      ingredient_request_def dict_get_def parse_spaces parse_no_letters)
qed

section \<open>Summaries\<close>

lemma parse_examples:
  "parse_handwriting ''Egg'' = Some ''Egg''" "parse_handwriting ''Flour'' = Some ''Flour''"
  "parse_handwriting ''Batter'' = Some ''Batter''" "parse_handwriting ''Pancake'' = Some ''Pancake''"
  by code_simp+

lemma pancake_store_created:
  "fst (create_entry (fst (create_entry (fst (create_entry (fst (create_entry Map.empty
       (ingredient_request ''Egg'' 5)))
       (ingredient_request ''Flour'' 2)))
       (recipe_request ''Batter'' [(''Egg'', 2), (''Flour'', 1)])))
       (recipe_request ''Pancake'' [(''Batter'', 3)])) = pancake_store"
  by (simp add: create_entry_def validate_entry_data_def process_ingredient_def process_recipe_def
      ingredient_request_def recipe_request_def dict_get_def parse_examples pancake_store_def)

text \<open>
  Claim C1. In the store with the ingredients Egg (cook time 5) and Flour (cook time 2),
  the recipe Batter of 2 Egg and 1 Flour and the recipe Pancake of 3 Batter (the store
  that the four creation requests build, \<open>pancake_store_created\<close>), the summary of
  "Pancake" is answered with cook time 36 and the ingredients Egg 6, Flour 3, in this
  order.
\<close>

theorem pancake_summary:
  "summary pancake_store (Some ''Pancake'') =
     Some (Summary \<lparr>summary_name = KStr ''Pancake'', cookTime = 36,
                    ingredients = [(KStr ''Egg'', 6), (KStr ''Flour'', 3)]\<rparr>)"
  by code_simp

lemma initial_calc:
  "calculate_recipe_summary rs recipe =
     (case while_stack rs (initial recipe) of
        None \<Rightarrow> None
      | Some (Inl e) \<Rightarrow> Some (Inl e)
      | Some (Inr s) \<Rightarrow>
          (case sorted_items (ingredient_counts s) of
             Inl e \<Rightarrow> Some (Inl e)
           | Inr items \<Rightarrow>
               Some (Inr \<lparr>summary_name = name recipe,
                          cookTime = total_cooking_time s,
                          ingredients = items\<rparr>)))"
  by (simp add: calculate_recipe_summary_def initial_def)

lemma push_items_missing:
  "it \<in> set its \<Longrightarrow> rs (item_name it) = None \<Longrightarrow> push_items rs m its stk = Inl ValueError"
  by (induction its arbitrary: stk) (auto split: option.splits)

lemma turns_while:
  "turns rs k s = Inr s' \<Longrightarrow> while_stack rs s = while_stack rs s'"
proof (induction k arbitrary: s)
  case 0
  then show ?case by simp
next
  case (Suc k)
  show ?case
  proof (cases "stack s = []")
    case True
    with Suc.prems show ?thesis by simp
  next
    case False
    with Suc.prems obtain s1 where b: "loop_body rs s = Inr s1" and t: "turns rs k s1 = Inr s'"
      by (auto split: sum.splits)
    from False b have "while_stack rs s = while_stack rs s1"
      by (subst while_stack.simps) simp
    with Suc.IH [OF t] show ?thesis by simp
  qed
qed

lemma missing_item_raises:
  assumes "stack s = (Recipe dn items, m) # rest" "it \<in> set items" "rs (item_name it) = None"
  shows "while_stack rs s = Some (Inl ValueError)"
proof -
  from assms(2) have "it \<in> set (rev items)" by simp
  then have "push_items rs m (rev items) rest = Inl ValueError"
    using assms(3) by (rule push_items_missing)
  with assms(1) have "loop_body rs s = Inl ValueError" by (simp add: loop_body_def)
  with assms(1) show ?thesis by (subst while_stack.simps) simp
qed

text \<open>
  Claim C2. \<^verbatim>\<open>summary\<close> answers with a rejection, and no summary, when the name is not a
  key of the store, when the key holds an ingredient, and when the traversal, after any
  number of turns of the loop, pops a recipe one of whose required items names no key
  of the store. The summary of "Soup", which requires the missing "Stock", is rejected.
\<close>

theorem summary_rejects:
  "(KStr n \<notin> dom rs \<longrightarrow> summary rs (Some n) = Some SummaryRejected) \<and>
   (rs (KStr n) = Some (Ingredient dn ct) \<longrightarrow> summary rs (Some n) = Some SummaryRejected) \<and>
   (rs (KStr n) = Some (Recipe dn items) \<and> turns rs k (initial (Recipe dn items)) = Inr s \<and>
      stack s = (Recipe dn' items', m) # rest \<and> it \<in> set items' \<and> item_name it \<notin> dom rs
    \<longrightarrow> summary rs (Some n) = Some SummaryRejected) \<and>
   summary soup_store (Some ''Soup'') = Some SummaryRejected"
proof (intro conjI impI)
  show "summary rs (Some n) = Some SummaryRejected" if "KStr n \<notin> dom rs"
    using that by (simp add: summary_def)
  show "summary rs (Some n) = Some SummaryRejected" if "rs (KStr n) = Some (Ingredient dn ct)"
    using that by (simp add: summary_def)
  show "summary soup_store (Some ''Soup'') = Some SummaryRejected"
    by code_simp
next
  assume a: "rs (KStr n) = Some (Recipe dn items) \<and> turns rs k (initial (Recipe dn items)) = Inr s \<and>
      stack s = (Recipe dn' items', m) # rest \<and> it \<in> set items' \<and> item_name it \<notin> dom rs"
  then have "while_stack rs (initial (Recipe dn items)) = while_stack rs s"
    using turns_while by blast
  also from a have "\<dots> = Some (Inl ValueError)"
    by (intro missing_item_raises [of s dn' items' m rest it]) auto
  finally show "summary rs (Some n) = Some SummaryRejected"
    using a by (simp add: summary_def initial_calc)
qed

theorem summary_rejects_witness:
  "summary stew_store (Some ''Water'') = Some SummaryRejected \<and>
   summary stew_store (Some ''Salt'') = Some SummaryRejected \<and>
   summary stew_store (Some ''Stew'') = Some SummaryRejected"
proof -
  have t: "turns stew_store 2
             (initial (Recipe (KStr ''Stew'')
                [\<lparr>item_name = KStr ''Salt'', quantity = 1\<rparr>, \<lparr>item_name = KStr ''Broth'', quantity = 2\<rparr>]))
           = Inr \<lparr>stack = [(Recipe (KStr ''Broth'') [\<lparr>item_name = KStr ''Water'', quantity = 1\<rparr>], 2)],
                  ingredient_counts = [(KStr ''Salt'', 1)], total_cooking_time = 1\<rparr>"
    by (simp add: numeral_2_eq_2 initial_def loop_body_def stew_store_def)
  have a: "summary stew_store (Some ''Water'') = Some SummaryRejected"
    using summary_rejects [where n = "''Water''" and rs = stew_store] by (simp add: stew_store_def)
  have b: "summary stew_store (Some ''Salt'') = Some SummaryRejected"
    using summary_rejects [where n = "''Salt''" and rs = stew_store and dn = "KStr ''Salt''" and ct = 1]
    by (simp add: stew_store_def)
  have c: "summary stew_store (Some ''Stew'') = Some SummaryRejected"
    using summary_rejects [where n = "''Stew''" and rs = stew_store and dn = "KStr ''Stew''"
        and items = "[\<lparr>item_name = KStr ''Salt'', quantity = 1\<rparr>, \<lparr>item_name = KStr ''Broth'', quantity = 2\<rparr>]"
        and k = 2
        and s = "\<lparr>stack = [(Recipe (KStr ''Broth'') [\<lparr>item_name = KStr ''Water'', quantity = 1\<rparr>], 2)],
                  ingredient_counts = [(KStr ''Salt'', 1)], total_cooking_time = 1\<rparr>"
        and dn' = "KStr ''Broth''" and items' = "[\<lparr>item_name = KStr ''Water'', quantity = 1\<rparr>]"
        and m = 2 and rest = "[]"
        and it = "\<lparr>item_name = KStr ''Water'', quantity = 1\<rparr>"] t
    by (simp add: stew_store_def)
  from a b c show ?thesis by simp
qed

section \<open>Termination of the traversal\<close>

lemma push_items_ok:
  "\<forall>it\<in>set its. rs (item_name it) \<noteq> None \<Longrightarrow>
   push_items rs m its stk = Inr (rev (map (\<lambda>it. (the (rs (item_name it)), m * quantity it)) its) @ stk)"
  by (induction its arbitrary: stk) (auto split: option.splits)

lemma push_items_Inr:
  "push_items rs m its stk = Inr stk' \<Longrightarrow> \<forall>it\<in>set its. rs (item_name it) \<noteq> None"
  by (induction its arbitrary: stk) (auto split: option.splits)

lemma push_items_Inl:
  "push_items rs m its stk = Inl e \<Longrightarrow> e = ValueError \<and> (\<exists>it\<in>set its. rs (item_name it) = None)"
  by (induction its arbitrary: stk) (auto split: option.splits)

lemma run_visits_append:
  "run_visits m (vs @ ws) ct = run_visits m ws (run_visits m vs ct)"
  by (induction m vs ct rule: run_visits.induct) auto

lemma run_visits_scale:
  "run_visits m (scale q vs) ct = run_visits (m * q) vs ct"
proof (induction vs arbitrary: ct)
  case Nil
  then show ?case by (simp add: scale_def)
next
  case (Cons v vs)
  obtain n q' cook where v: "v = (n, q', cook)" by (cases v)
  obtain c t where ct: "ct = (c, t)" by (cases ct)
  from Cons show ?case by (simp add: v ct scale_def mult.assoc)
qed

lemma while_ingredient:
  "while_stack rs (st ((Ingredient n cook, m) # stk) ct)
   = while_stack rs (st stk (run_visits m [(n, 1, cook)] ct))"
  by (subst while_stack.simps) (cases ct, simp add: st_def loop_body_def)

lemma while_recipe:
  assumes "\<forall>it\<in>set items. rs (item_name it) \<noteq> None"
  shows "while_stack rs (st ((Recipe n items, m) # stk) ct)
   = while_stack rs (st (map (\<lambda>it. (the (rs (item_name it)), m * quantity it)) items @ stk) ct)"
proof -
  from assms have "\<forall>it\<in>set (rev items). rs (item_name it) \<noteq> None" by simp
  from push_items_ok [OF this, of m stk]
  have "push_items rs m (rev items) stk
        = Inr (map (\<lambda>it. (the (rs (item_name it)), m * quantity it)) items @ stk)"
    by (simp add: rev_map)
  then show ?thesis
    by (subst while_stack.simps) (simp add: st_def loop_body_def)
qed

lemma expands_run:
  "expands rs e vs \<Longrightarrow>
   while_stack rs (st ((e, m) # stk) ct) = while_stack rs (st stk (run_visits m vs ct))"
proof (induction arbitrary: m stk ct rule: expands.induct)
  case (ingredient n cook)
  show ?case by (rule while_ingredient)
next
  case (recipe items vss n)
  have res: "\<forall>it\<in>set items. rs (item_name it) \<noteq> None"
    using recipe by (fastforce simp: list_all2_conv_all_nth in_set_conv_nth)
  have "while_stack rs (st (map (\<lambda>it. (the (rs (item_name it)), m * quantity it)) items @ stk) ct)
      = while_stack rs (st stk (run_visits m (concat (map2 (\<lambda>it vs. scale (quantity it) vs) items vss)) ct))"
    using recipe
  proof (induction items vss arbitrary: ct rule: list_all2_induct)
    case Nil
    then show ?case by simp
  next
    case (Cons it items vs vss)
    from Cons.hyps(1) obtain c where c: "rs (item_name it) = Some c"
      and ih: "\<And>m stk ct. while_stack rs (st ((c, m) # stk) ct) = while_stack rs (st stk (run_visits m vs ct))"
      by blast
    show ?case
      using c ih Cons.IH
      by (simp add: run_visits_append run_visits_scale)
  qed
  with while_recipe [OF res] show ?case by simp
qed

lemma in_children:
  "c \<in> set (children rs e) \<longleftrightarrow> (\<exists>it\<in>set (items_of e). rs (item_name it) = Some c)"
  by (force simp: children_def List.map_filter_def)

lemma while_done: "while_stack rs (st [] ct) = Some (Inr (st [] ct))"
  by (subst while_stack.simps) (simp add: st_def)

lemma initial_st: "initial e = st [(e, 1)] ([], 0)"
  by (simp add: initial_def st_def)

lemma expands_terminates:
  "expands rs e vs \<Longrightarrow> while_stack rs (initial e) = Some (Inr (st [] (run_visits 1 vs ([], 0))))"
  by (simp add: initial_st expands_run while_done)

lemma list_all2_choice:
  "\<forall>x\<in>set xs. \<exists>y. P x y \<Longrightarrow> \<exists>ys. list_all2 P xs ys"
proof (induction xs)
  case Nil
  then show ?case by simp
next
  case (Cons x xs)
  then obtain y ys where "P x y" "list_all2 P xs ys" by auto
  then have "list_all2 P (x # xs) (y # ys)" by simp
  then show ?case by blast
qed

lemma expands_recipeI:
  assumes "\<forall>it\<in>set items. \<exists>c vs. rs (item_name it) = Some c \<and> expands rs c vs"
  shows "\<exists>vs. expands rs (Recipe n items) vs"
proof -
  from assms have "\<forall>it\<in>set items. \<exists>vs. \<exists>c. rs (item_name it) = Some c \<and> expands rs c vs"
    by blast
  from list_all2_choice [OF this] obtain vss where
    "list_all2 (\<lambda>it vs. \<exists>c. rs (item_name it) = Some c \<and> expands rs c vs) items vss" ..
  from expands.recipe [OF this] show ?thesis by blast
qed

lemma reachable_refl: "root \<in> reachable rs root"
  by (simp add: reachable_def)

lemma reachable_child:
  "e \<in> reachable rs root \<Longrightarrow> c \<in> set (children rs e) \<Longrightarrow> c \<in> reachable rs root"
  unfolding reachable_def requirement_def
  by (auto intro: converse_rtrancl_into_rtrancl)

lemma reachable_trans:
  "e \<in> reachable rs root \<Longrightarrow> x \<in> reachable rs e \<Longrightarrow> x \<in> reachable rs root"
  unfolding reachable_def by auto

lemma reachable_subset: "reachable rs root \<subseteq> insert root (ran rs)"
proof
  fix e assume "e \<in> reachable rs root"
  then have "(e, root) \<in> (requirement rs)\<^sup>*" by (simp add: reachable_def)
  then show "e \<in> insert root (ran rs)"
  proof (cases rule: converse_rtranclE)
    case base
    then show ?thesis by simp
  next
    case (step y)
    then have "e \<in> set (children rs y)" by (simp add: requirement_def)
    then show ?thesis by (auto simp: in_children ran_def)
  qed
qed

lemma acyclic_expands:
  assumes fin: "finite (dom rs)" and ac: "acyclic_from rs root" and res: "resolvable rs root"
  shows "\<exists>vs. expands rs root vs"
proof -
  define R where "R = {(c, p). p \<in> reachable rs root \<and> c \<in> set (children rs p)}"
  have sub: "R \<subseteq> requirement rs" by (auto simp: R_def requirement_def)
  have "R \<subseteq> ran rs \<times> insert root (ran rs)"
    using reachable_subset [of rs root] by (auto simp: R_def in_children ran_def)
  moreover from fin have "finite (ran rs \<times> insert root (ran rs))"
    by (simp add: finite_ran)
  ultimately have "finite R" by (rule finite_subset)
  moreover have "acyclic R"
  proof (rule acyclicI, rule allI, rule notI)
    fix x assume x: "(x, x) \<in> R\<^sup>+"
    then obtain y where "(y, x) \<in> R" by (auto elim: tranclE)
    then have "x \<in> reachable rs root" by (simp add: R_def)
    moreover from x sub have "(x, x) \<in> (requirement rs)\<^sup>+" by (rule trancl_mono)
    ultimately show False using ac by (auto simp: acyclic_from_def)
  qed
  ultimately have "wf R" by (rule finite_acyclic_wf)
  then have "e \<in> reachable rs root \<longrightarrow> (\<exists>vs. expands rs e vs)" for e
  proof (induction e rule: wf_induct_rule)
    case (less e)
    show ?case
    proof
      assume e: "e \<in> reachable rs root"
      show "\<exists>vs. expands rs e vs"
      proof (cases e)
        case (Ingredient n ct)
        then show ?thesis by (auto intro: expands.ingredient)
      next
        case (Recipe n items)
        have "\<exists>c vs. rs (item_name it) = Some c \<and> expands rs c vs" if "it \<in> set items" for it
        proof -
          from that Recipe have "it \<in> set (items_of e)" by simp
          with res e have "item_name it \<in> dom rs" unfolding resolvable_def by blast
          then obtain c where c: "rs (item_name it) = Some c" by blast
          with that Recipe have ch: "c \<in> set (children rs e)" by (auto simp: in_children)
          with e have "(c, e) \<in> R" "c \<in> reachable rs root"
            by (auto simp: R_def intro: reachable_child)
          with less c show ?thesis by blast
        qed
        then show ?thesis using expands_recipeI Recipe by blast
      qed
    qed
  qed
  then show ?thesis using reachable_refl by blast
qed

lemma expands_acc: "expands rs e vs \<Longrightarrow> e \<in> Wellfounded.acc (requirement rs)"
proof (induction rule: expands.induct)
  case (ingredient n ct)
  show ?case by (rule accI) (simp add: requirement_def in_children)
next
  case (recipe items vss n)
  show ?case
  proof (rule accI)
    fix y assume "(y, Recipe n items) \<in> requirement rs"
    then obtain it where it: "it \<in> set items" "rs (item_name it) = Some y"
      by (auto simp: requirement_def in_children)
    from it(1) obtain i where i: "i < length items" "items ! i = it"
      by (auto simp: in_set_conv_nth)
    with recipe it(2) show "y \<in> Wellfounded.acc (requirement rs)"
      by (fastforce simp: list_all2_conv_all_nth)
  qed
qed

lemma acc_irrefl:
  assumes "x \<in> Wellfounded.acc r"
  shows "(x, x) \<notin> r\<^sup>+"
  using assms
proof (induct x rule: acc.induct)
  case (accI x)
  show ?case
  proof
    assume "(x, x) \<in> r\<^sup>+"
    then obtain y where y: "(x, y) \<in> r\<^sup>*" "(y, x) \<in> r"
      by (meson tranclD2)
    then have "(y, y) \<in> r\<^sup>+" by (auto intro: rtrancl_into_trancl2)
    with accI y show False by blast
  qed
qed

lemma expands_acyclic:
  assumes "expands rs root vs"
  shows "acyclic_from rs root"
  unfolding acyclic_from_def
proof (intro ballI)
  fix e assume "e \<in> reachable rs root"
  then have "(e, root) \<in> (requirement rs)\<^sup>*" by (simp add: reachable_def)
  with expands_acc [OF assms] have "e \<in> Wellfounded.acc (requirement rs)"
    by (rule acc_downwards)
  then show "(e, e) \<notin> (requirement rs)\<^sup>+" by (rule acc_irrefl)
qed

lemma loop_body_cases:
  assumes "stack s = (e, m) # rest"
  shows "(case e of
            Ingredient n cook \<Rightarrow>
              loop_body rs s = Inr \<lparr>stack = rest,
                ingredient_counts = counter_add (ingredient_counts s) n m,
                total_cooking_time = total_cooking_time s + cook * m\<rparr>
          | Recipe n items \<Rightarrow>
              (if \<forall>it\<in>set items. rs (item_name it) \<noteq> None
               then loop_body rs s
                    = Inr (s\<lparr>stack := map (\<lambda>it. (the (rs (item_name it)), m * quantity it)) items @ rest\<rparr>)
               else loop_body rs s = Inl ValueError))"
proof (cases e)
  case (Ingredient n cook)
  with assms show ?thesis by (simp add: loop_body_def)
next
  case (Recipe n items)
  show ?thesis
  proof (cases "\<forall>it\<in>set items. rs (item_name it) \<noteq> None")
    case True
    then have "\<forall>it\<in>set (rev items). rs (item_name it) \<noteq> None" by simp
    from push_items_ok [OF this, of m rest] Recipe assms True show ?thesis
      by (simp add: loop_body_def rev_map)
  next
    case False
    then obtain it where "it \<in> set (rev items)" "rs (item_name it) = None" by auto
    then have "push_items rs m (rev items) rest = Inl ValueError" by (rule push_items_missing)
    with Recipe assms False show ?thesis by (simp add: loop_body_def)
  qed
qed

lemma while_ok_expands:
  assumes "while_stack rs s = Some y"
  shows "\<forall>r. y = Inr r \<longrightarrow> (\<forall>(e, m)\<in>set (stack s). \<exists>vs. expands rs e vs)"
proof (induction rs s y rule: while_stack.raw_induct)
  case (1 w rs s y)
  show ?case
  proof (cases "stack s")
    case Nil
    then show ?thesis by simp
  next
    case (Cons em rest)
    obtain e m where em: "em = (e, m)" by (cases em)
    with Cons have stk: "stack s = (e, m) # rest" by simp
    show ?thesis
    proof (intro allI impI)
      fix r assume y: "y = Inr r"
      from 1(2) stk y obtain s' where b: "loop_body rs s = Inr s'" and w: "w rs s' = Some (Inr r)"
        by (auto split: sum.splits)
      from 1(1) [OF w] have ih: "\<forall>(e, m)\<in>set (stack s'). \<exists>vs. expands rs e vs" by simp
      show "\<forall>(e, m)\<in>set (stack s). \<exists>vs. expands rs e vs"
      proof (cases e)
        case (Ingredient n cook)
        with loop_body_cases [OF stk, of rs] b have "stack s' = rest" by auto
        with ih stk Ingredient show ?thesis by (auto intro: expands.ingredient)
      next
        case (Recipe n items)
        with loop_body_cases [OF stk, of rs] b
        have res: "\<forall>it\<in>set items. rs (item_name it) \<noteq> None"
          and s': "stack s' = map (\<lambda>it. (the (rs (item_name it)), m * quantity it)) items @ rest"
          by (auto split: if_splits)
        have "\<exists>c vs. rs (item_name it) = Some c \<and> expands rs c vs" if "it \<in> set items" for it
        proof -
          from res that obtain c where c: "rs (item_name it) = Some c" by auto
          with that s' have "(c, m * quantity it) \<in> set (stack s')" by force
          with ih c show ?thesis by auto
        qed
        then have "\<exists>vs. expands rs (Recipe n items) vs" by (intro expands_recipeI) blast
        with ih s' stk Recipe show ?thesis by auto
      qed
    qed
  qed
qed fact

lemma while_error_missing:
  assumes "while_stack rs s = Some y"
  shows "\<forall>err. y = Inl err \<longrightarrow>
       (\<exists>(x, m)\<in>set (stack s). \<exists>x'\<in>reachable rs x. \<exists>it\<in>set (items_of x'). rs (item_name it) = None)"
proof (induction rs s y rule: while_stack.raw_induct)
  case (1 w rs s y)
  show ?case
  proof (cases "stack s")
    case Nil
    with 1(2) show ?thesis by auto
  next
    case (Cons em rest)
    obtain e m where em: "em = (e, m)" by (cases em)
    with Cons have stk: "stack s = (e, m) # rest" by simp
    show ?thesis
    proof (intro allI impI)
      fix err assume y: "y = Inl err"
      show "\<exists>(x, m)\<in>set (stack s). \<exists>x'\<in>reachable rs x. \<exists>it\<in>set (items_of x'). rs (item_name it) = None"
      proof (cases e)
        case (Ingredient n cook)
        with loop_body_cases [OF stk, of rs] obtain s' where
          b: "loop_body rs s = Inr s'" and s': "stack s' = rest" by auto
        with 1(2) stk y have "w rs s' = Some (Inl err)" by simp
        from 1(1) [OF this] s' stk show ?thesis by auto
      next
        case (Recipe n items)
        show ?thesis
        proof (cases "\<forall>it\<in>set items. rs (item_name it) \<noteq> None")
          case False
          then obtain it where "it \<in> set (items_of e)" "rs (item_name it) = None"
            using Recipe by auto
          with stk reachable_refl [of e rs] show ?thesis by force
        next
          case True
          with loop_body_cases [OF stk, of rs] Recipe obtain s' where
            b: "loop_body rs s = Inr s'"
            and s': "stack s' = map (\<lambda>it. (the (rs (item_name it)), m * quantity it)) items @ rest"
            by auto
          with 1(2) stk y have "w rs s' = Some (Inl err)" by simp
          from 1(1) [OF this] obtain x k x' it where
            x: "(x, k) \<in> set (stack s')" "x' \<in> reachable rs x" "it \<in> set (items_of x')"
               "rs (item_name it) = None" by auto
          show ?thesis
          proof (cases "(x, k) \<in> set rest")
            case True
            with x stk show ?thesis by force
          next
            case False
            with x(1) s' obtain it' where it': "it' \<in> set items" "x = the (rs (item_name it'))"
              by auto
            with \<open>\<forall>it\<in>set items. rs (item_name it) \<noteq> None\<close> have "rs (item_name it') = Some x"
              by auto
            with it' Recipe have "x \<in> set (children rs e)" by (auto simp: in_children)
            with reachable_refl [of e rs] have "x \<in> reachable rs e" by (rule reachable_child)
            then have "x' \<in> reachable rs e" using x(2) by (rule reachable_trans)
            with x stk show ?thesis by force
          qed
        qed
      qed
    qed
  qed
qed fact

lemma reachable_closed:
  assumes "root \<in> S" and "\<And>e c. e \<in> S \<Longrightarrow> c \<in> set (children rs e) \<Longrightarrow> c \<in> S"
  shows "reachable rs root \<subseteq> S"
proof
  fix e assume "e \<in> reachable rs root"
  then have "(e, root) \<in> (requirement rs)\<^sup>*" by (simp add: reachable_def)
  then show "e \<in> S"
    by (induction rule: converse_rtrancl_induct) (auto simp: requirement_def assms)
qed

lemma acyclic_from_rank:
  fixes rank :: "entry \<Rightarrow> nat"
  assumes "\<And>e c. e \<in> reachable rs root \<Longrightarrow> c \<in> set (children rs e) \<Longrightarrow> rank c < rank e"
  shows "acyclic_from rs root"
proof -
  have "rank a < rank b \<and> a \<in> reachable rs root"
    if "(a, b) \<in> (requirement rs)\<^sup>+" "b \<in> reachable rs root" for a b
    using that
  proof (induction rule: converse_trancl_induct)
    case (base y)
    then have "y \<in> set (children rs b)" by (simp add: requirement_def)
    with base assms reachable_child show ?case by blast
  next
    case (step y z)
    then have z: "rank z < rank b" "z \<in> reachable rs root" by auto
    from step have "y \<in> set (children rs z)" by (simp add: requirement_def)
    with z assms [of z y] reachable_child [of z rs root y] show ?case by auto
  qed
  then show ?thesis unfolding acyclic_from_def by blast
qed

lemma cycle_never_returns:
  assumes "resolvable rs root" and cyc: "\<not> acyclic_from rs root"
  shows "while_stack rs (initial root) = None"
proof (rule ccontr)
  assume "while_stack rs (initial root) \<noteq> None"
  then obtain y where y: "while_stack rs (initial root) = Some y" by auto
  show False
  proof (cases y)
    case (Inr r)
    with while_ok_expands [OF y] obtain vs where "expands rs root vs"
      by (auto simp: initial_def)
    with cyc expands_acyclic show False by blast
  next
    case (Inl err)
    with while_error_missing [OF y] obtain x' it where
      "x' \<in> reachable rs root" "it \<in> set (items_of x')" "rs (item_name it) = None"
      by (auto simp: initial_def)
    with assms(1) show False unfolding resolvable_def by blast
  qed
qed

text \<open>
  Claim C3, amended. In a (finite) store where every item name reachable from the root
  resolves, the loop of \<^verbatim>\<open>calculate_recipe_summary\<close> ends, without an exception, when
  no entry reachable from the root requires itself; when one does, the loop never ends
  and the summary never returns: nothing guards against it.
\<close>

theorem traversal_terminates_iff_acyclic:
  assumes "finite (dom rs)" and "resolvable rs root"
  shows "(acyclic_from rs root \<longrightarrow> (\<exists>r. while_stack rs (initial root) = Some (Inr r))) \<and>
         (\<not> acyclic_from rs root \<longrightarrow>
            while_stack rs (initial root) = None \<and> calculate_recipe_summary rs root = None)"
proof (intro conjI impI)
  assume "acyclic_from rs root"
  from acyclic_expands [OF assms(1) this assms(2)] obtain vs where "expands rs root vs" ..
  from expands_terminates [OF this] show "\<exists>r. while_stack rs (initial root) = Some (Inr r)" ..
next
  assume "\<not> acyclic_from rs root"
  with assms(2) show "while_stack rs (initial root) = None" by (rule cycle_never_returns)
  then show "calculate_recipe_summary rs root = None"
    by (simp add: calculate_recipe_summary_def initial_def)
qed

lemma pancake_store_eq:
  "pancake_store =
     [KStr ''Egg'' \<mapsto> Ingredient (KStr ''Egg'') 5,
      KStr ''Flour'' \<mapsto> Ingredient (KStr ''Flour'') 2,
      KStr ''Batter'' \<mapsto> batter, KStr ''Pancake'' \<mapsto> pancake]"
  by (simp add: pancake_store_def batter_def pancake_def)

lemma pancake_children:
  "children pancake_store pancake = [batter]"
  "children pancake_store batter = [Ingredient (KStr ''Egg'') 5, Ingredient (KStr ''Flour'') 2]"
  "children pancake_store (Ingredient n ct) = []"
  by (simp_all add: children_def List.map_filter_def pancake_store_eq)
     (simp_all add: pancake_def batter_def)

lemma pancake_reachable:
  "reachable pancake_store pancake
     \<subseteq> {pancake, batter, Ingredient (KStr ''Egg'') 5, Ingredient (KStr ''Flour'') 2}"
  by (rule reachable_closed) (auto simp: pancake_children)

theorem traversal_terminates_iff_acyclic_witness:
  "\<exists>r. while_stack pancake_store (initial pancake) = Some (Inr r)"
proof -
  have fin: "finite (dom pancake_store)" by (simp add: pancake_store_def)
  have res: "resolvable pancake_store pancake"
    unfolding resolvable_def
  proof (intro ballI)
    fix e it assume "e \<in> reachable pancake_store pancake" and it: "it \<in> set (items_of e)"
    with pancake_reachable
    have "e \<in> {pancake, batter, Ingredient (KStr ''Egg'') 5, Ingredient (KStr ''Flour'') 2}"
      by blast
    with it show "item_name it \<in> dom pancake_store"
      by (auto simp: pancake_def batter_def pancake_store_def)
  qed
  have ne: "pancake \<noteq> batter" "Ingredient n ct \<noteq> pancake" "Ingredient n ct \<noteq> batter" for n ct
    by (simp_all add: pancake_def batter_def)
  have ac: "acyclic_from pancake_store pancake"
  proof (rule acyclic_from_rank [where rank = "\<lambda>e. if e = pancake then 2 else if e = batter then 1 else 0"])
    fix e c assume "e \<in> reachable pancake_store pancake" and c: "c \<in> set (children pancake_store e)"
    with pancake_reachable
    have "e \<in> {pancake, batter, Ingredient (KStr ''Egg'') 5, Ingredient (KStr ''Flour'') 2}"
      by blast
    then consider "e = pancake" | "e = batter" | n ct where "e = Ingredient n ct" by blast
    then show "(if c = pancake then 2 else if c = batter then 1 else 0)
          < (if e = pancake then 2 else if e = batter then 1 else (0::nat))"
    proof cases
      case 1
      with c have "c = batter" by (simp add: pancake_children)
      with 1 ne show ?thesis by simp
    next
      case 2
      with c obtain n ct where "c = Ingredient n ct" by (auto simp: pancake_children)
      with 2 ne show ?thesis by simp
    next
      case 3
      with c show ?thesis by (simp add: pancake_children)
    qed
  qed
  from traversal_terminates_iff_acyclic [OF fin res] ac show ?thesis by blast
qed

text \<open>
  Claim C3 as stated fails in its last part: a cycle need not make the work list grow.
  The recipe Ouroboros requires itself once; the loop never ends, and after any number
  of turns the state is the initial one, with a work list of one element.
\<close>

theorem cyclic_work_list_stays_bounded:
  "ouroboros_store (KStr ''Ouroboros'') = Some ouroboros \<and>
   (ouroboros, ouroboros) \<in> (requirement ouroboros_store)\<^sup>+ \<and>
   while_stack ouroboros_store (initial ouroboros) = None \<and>
   (\<forall>k. turns ouroboros_store k (initial ouroboros) = Inr (initial ouroboros)) \<and>
   length (stack (initial ouroboros)) = 1"
proof (intro conjI allI)
  show "ouroboros_store (KStr ''Ouroboros'') = Some ouroboros"
    by (simp add: ouroboros_store_def)
  have ch: "children ouroboros_store ouroboros = [ouroboros]"
    by (simp add: children_def List.map_filter_def ouroboros_store_def)
       (simp add: ouroboros_def)
  then have "(ouroboros, ouroboros) \<in> requirement ouroboros_store"
    by (simp add: requirement_def)
  then show cyc: "(ouroboros, ouroboros) \<in> (requirement ouroboros_store)\<^sup>+" ..
  have body: "loop_body ouroboros_store (initial ouroboros) = Inr (initial ouroboros)"
    by (simp add: loop_body_def initial_def ouroboros_def ouroboros_store_def)
  show "turns ouroboros_store k (initial ouroboros) = Inr (initial ouroboros)" for k
  proof (induction k)
    case 0
    show ?case by simp
  next
    case (Suc k)
    have "stack (initial ouroboros) \<noteq> []" by (simp add: initial_def)
    with Suc body show ?case by simp
  qed
  show "length (stack (initial ouroboros)) = 1" by (simp add: initial_def)
  have "reachable ouroboros_store ouroboros \<subseteq> {ouroboros}"
    by (rule reachable_closed) (auto simp: ch)
  then have res: "resolvable ouroboros_store ouroboros"
    unfolding resolvable_def by (auto simp: ouroboros_def ouroboros_store_def)
  have "\<not> acyclic_from ouroboros_store ouroboros"
    unfolding acyclic_from_def using cyc reachable_refl by blast
  with res show "while_stack ouroboros_store (initial ouroboros) = None"
    by (rule cycle_never_returns)
qed

section \<open>Linearity of the expansion\<close>

lemma counter_get_add:
  "counter_get (counter_add c n v) x = counter_get c x + (if n = x then v else 0)"
  by (induction c n v rule: counter_add.induct) (auto simp: counter_get_def)

lemma counter_add_keys:
  "fst ` set (counter_add c n v) = insert n (fst ` set c)"
  by (induction c n v rule: counter_add.induct) auto

lemma counter_add_distinct:
  "distinct (map fst c) \<Longrightarrow> distinct (map fst (counter_add c n v))"
proof (induction c n v rule: counter_add.induct)
  case (1 k m)
  show ?case by simp
next
  case (2 k' v cs k m)
  then show ?case by (auto simp: counter_add_keys)
qed

lemma run_visits_counts:
  "counter_get (fst (run_visits m vs (c, t))) x = counter_get c x + m * vcount vs x"
proof (induction vs arbitrary: c t)
  case Nil
  show ?case by (simp add: vcount_def)
next
  case (Cons v vs)
  obtain n q cook where v: "v = (n, q, cook)" by (cases v)
  have "vcount (v # vs) x = (if n = x then q else 0) + vcount vs x"
    by (simp add: v vcount_def)
  then show ?case by (simp add: v Cons.IH counter_get_add algebra_simps)
qed

lemma run_visits_total:
  "snd (run_visits m vs (c, t)) = t + m * vtime vs"
proof (induction vs arbitrary: c t)
  case Nil
  show ?case by (simp add: vtime_def)
next
  case (Cons v vs)
  obtain n q cook where v: "v = (n, q, cook)" by (cases v)
  have "vtime (v # vs) = cook * q + vtime vs" by (simp add: v vtime_def)
  then show ?case by (simp add: v Cons.IH algebra_simps)
qed

lemma run_visits_keys:
  "fst ` set (fst (run_visits m vs (c, t))) = fst ` set c \<union> fst ` set vs"
proof (induction vs arbitrary: c t)
  case Nil
  show ?case by simp
next
  case (Cons v vs)
  obtain n q cook where v: "v = (n, q, cook)" by (cases v)
  show ?case by (simp add: v Cons.IH counter_add_keys)
qed

lemma run_visits_distinct:
  "distinct (map fst c) \<Longrightarrow> distinct (map fst (fst (run_visits m vs (c, t))))"
proof (induction vs arbitrary: c t)
  case Nil
  then show ?case by simp
next
  case (Cons v vs)
  obtain n q cook where v: "v = (n, q, cook)" by (cases v)
  from Cons.prems have "distinct (map fst (counter_add c n (m * q)))"
    by (rule counter_add_distinct)
  from Cons.IH [OF this] show ?case by (simp add: v)
qed

lemma vcount_append: "vcount (vs @ ws) x = vcount vs x + vcount ws x"
  by (simp add: vcount_def)

lemma vtime_append: "vtime (vs @ ws) = vtime vs + vtime ws"
  by (simp add: vtime_def)

lemma vcount_scale: "vcount (scale q vs) x = q * vcount vs x"
  by (induction vs) (auto simp: vcount_def scale_def algebra_simps)

lemma vtime_scale: "vtime (scale q vs) = q * vtime vs"
  by (induction vs) (auto simp: vtime_def scale_def algebra_simps)

lemma names_scale: "fst ` set (scale q vs) = fst ` set vs"
  by (force simp: scale_def)

lemma all_str:
  "list_all (\<lambda>(k, v). case k of KStr _ \<Rightarrow> True | _ \<Rightarrow> False) cs
   = (\<forall>(k, v)\<in>set cs. \<exists>s. k = KStr s)"
  by (induction cs) (auto split: pykey.splits)

lemma all_int:
  "list_all (\<lambda>(k, v). case k of KInt _ \<Rightarrow> True | _ \<Rightarrow> False) cs
   = (\<forall>(k, v)\<in>set cs. \<exists>i. k = KInt i)"
  by (induction cs) (auto split: pykey.splits)

lemma sorted_items_cases:
  "(\<exists>its. sorted_items cs = Inr its) \<longleftrightarrow>
     length cs \<le> 1 \<or> (\<forall>(k, v)\<in>set cs. \<exists>s. k = KStr s) \<or> (\<forall>(k, v)\<in>set cs. \<exists>i. k = KInt i)"
  unfolding sorted_items_def all_str all_int by auto

lemma sorted_items_set:
  "sorted_items cs = Inr its \<Longrightarrow> set its = set cs \<and> distinct its = distinct cs"
  by (auto simp: sorted_items_def split: if_splits)

lemma sorted_items_get:
  assumes "distinct (map fst cs)" and "sorted_items cs = Inr its"
  shows "counter_get its x = counter_get cs x"
proof -
  from sorted_items_set [OF assms(2)] have s: "set its = set cs" and d: "distinct its = distinct cs"
    by auto
  from assms(1) s d have "distinct (map fst its)" by (simp add: distinct_map)
  with assms(1) s have "map_of its = map_of cs" by (simp add: map_of_inject_set)
  then show ?thesis by (simp add: counter_get_def)
qed

lemma sorted_items_subset:
  assumes "distinct (map fst cs)" "distinct (map fst cs')" "fst ` set cs' \<subseteq> fst ` set cs"
    and "sorted_items cs = Inr its"
  shows "\<exists>its'. sorted_items cs' = Inr its'"
proof -
  from assms(4) sorted_items_cases [of cs]
  consider "length cs \<le> 1" | "\<forall>(k, v)\<in>set cs. \<exists>s. k = KStr s" | "\<forall>(k, v)\<in>set cs. \<exists>i. k = KInt i"
    by blast
  then show ?thesis
  proof cases
    case 1
    have "length cs' = card (fst ` set cs')"
      using assms(2) distinct_card [of "map fst cs'"] by simp
    also have "\<dots> \<le> card (fst ` set cs)" using assms(3) by (intro card_mono) auto
    also have "\<dots> = length cs" using assms(1) distinct_card [of "map fst cs"] by simp
    finally have "length cs' \<le> 1" using 1 by simp
    then show ?thesis using sorted_items_cases [of cs'] by blast
  next
    case 2
    with assms(3) have "\<forall>(k, v)\<in>set cs'. \<exists>s. k = KStr s" by fastforce
    then show ?thesis using sorted_items_cases [of cs'] by blast
  next
    case 3
    with assms(3) have "\<forall>(k, v)\<in>set cs'. \<exists>i. k = KInt i" by fastforce
    then show ?thesis using sorted_items_cases [of cs'] by blast
  qed
qed

lemma tally_facts:
  "counter_get (tally vs) x = vcount vs x"
  "distinct (map fst (tally vs))"
  "fst ` set (tally vs) = fst ` set vs"
  "snd (run_visits 1 vs ([], 0)) = vtime vs"
  using run_visits_counts [of 1 vs "[]" 0 x] run_visits_distinct [of "[]" 1 vs 0]
    run_visits_keys [of 1 vs "[]" 0] run_visits_total [of 1 vs "[]" 0]
  by (simp_all add: tally_def counter_get_def)

lemma expands_summary:
  assumes "expands rs e vs"
  shows "calculate_recipe_summary rs e =
     (case sorted_items (tally vs) of
        Inl err \<Rightarrow> Some (Inl err)
      | Inr its \<Rightarrow> Some (Inr \<lparr>summary_name = name e, cookTime = vtime vs, ingredients = its\<rparr>))"
  using expands_terminates [OF assms] tally_facts(4) [of vs]
  by (simp add: initial_calc st_def tally_def split: sum.split)

lemma names_concat:
  "length items = length vss \<Longrightarrow>
   fst ` set (concat (map2 (\<lambda>it vs. scale (quantity it) vs) items vss))
   = (\<Union>vs\<in>set vss. fst ` set vs)"
proof (induction items vss rule: list_induct2)
  case Nil
  show ?case by simp
next
  case (Cons it items vs vss)
  then show ?case by (simp add: image_Un names_scale)
qed

lemma children_summaries:
  assumes "list_all2 (\<lambda>it vs. \<exists>c. rs (item_name it) = Some c \<and> expands rs c vs \<and>
                        (\<exists>its. sorted_items (tally vs) = Inr its)) items vss"
  shows "\<exists>ds. list_all2 (\<lambda>it d. \<exists>c. rs (item_name it) = Some c \<and>
                        calculate_recipe_summary rs c = Some (Inr d)) items ds \<and>
           vtime (concat (map2 (\<lambda>it vs. scale (quantity it) vs) items vss))
             = (\<Sum>(it, d)\<leftarrow>zip items ds. quantity it * cookTime d) \<and>
           (\<forall>x. vcount (concat (map2 (\<lambda>it vs. scale (quantity it) vs) items vss)) x
             = (\<Sum>(it, d)\<leftarrow>zip items ds. quantity it * counter_get (ingredients d) x))"
  using assms
proof (induction items vss rule: list_all2_induct)
  case Nil
  show ?case by (simp add: vtime_def vcount_def)
next
  case (Cons it items vs vss)
  from Cons.hyps(1) obtain c its where c: "rs (item_name it) = Some c" "expands rs c vs"
    and its: "sorted_items (tally vs) = Inr its" by blast
  define d where "d = \<lparr>summary_name = name c, cookTime = vtime vs, ingredients = its\<rparr>"
  from expands_summary [OF c(2)] its have calc: "calculate_recipe_summary rs c = Some (Inr d)"
    by (simp add: d_def)
  have get: "counter_get (ingredients d) x = vcount vs x" for x
    using sorted_items_get [OF tally_facts(2) its, of x] by (simp add: d_def tally_facts(1))
  from Cons.IH obtain ds where ds:
    "list_all2 (\<lambda>it d. \<exists>c. rs (item_name it) = Some c \<and>
                        calculate_recipe_summary rs c = Some (Inr d)) items ds"
    "vtime (concat (map2 (\<lambda>it vs. scale (quantity it) vs) items vss))
             = (\<Sum>(it, d)\<leftarrow>zip items ds. quantity it * cookTime d)"
    "\<And>x. vcount (concat (map2 (\<lambda>it vs. scale (quantity it) vs) items vss)) x
             = (\<Sum>(it, d)\<leftarrow>zip items ds. quantity it * counter_get (ingredients d) x)"
    by blast
  have "list_all2 (\<lambda>it d. \<exists>c. rs (item_name it) = Some c \<and>
                        calculate_recipe_summary rs c = Some (Inr d)) (it # items) (d # ds)"
    using c(1) calc ds(1) by simp
  moreover have "vtime (concat (map2 (\<lambda>it vs. scale (quantity it) vs) (it # items) (vs # vss)))
             = (\<Sum>(it, d)\<leftarrow>zip (it # items) (d # ds). quantity it * cookTime d)"
    by (simp add: vtime_append vtime_scale ds(2) d_def)
  moreover have "vcount (concat (map2 (\<lambda>it vs. scale (quantity it) vs) (it # items) (vs # vss))) x
             = (\<Sum>(it, d)\<leftarrow>zip (it # items) (d # ds). quantity it * counter_get (ingredients d) x)" for x
    by (simp add: vcount_append vcount_scale ds(3) get)
  ultimately show ?case by blast
qed

text \<open>
  Claim C6. When the summary of a recipe P is returned (as it is in an acyclic, fully
  resolvable store, unless the display names cannot be sorted), every item P requires
  resolves to an entry with a summary of its own, and P's cook time and each of P's
  ingredient counts are the sums, over the required items, of the item's quantity times
  the cook time or the count in that entry's own summary: a recipe R required with
  quantity q contributes q times what R reports alone.
\<close>

theorem expansion_linear:
  assumes "calculate_recipe_summary rs (Recipe n items) = Some (Inr dP)"
  shows "\<exists>ds. list_all2 (\<lambda>it d. \<exists>c. rs (item_name it) = Some c \<and>
                        calculate_recipe_summary rs c = Some (Inr d)) items ds \<and>
           cookTime dP = (\<Sum>(it, d)\<leftarrow>zip items ds. quantity it * cookTime d) \<and>
           (\<forall>x. counter_get (ingredients dP) x
                = (\<Sum>(it, d)\<leftarrow>zip items ds. quantity it * counter_get (ingredients d) x))"
proof -
  from assms obtain sP where w: "while_stack rs (initial (Recipe n items)) = Some (Inr sP)"
    by (auto simp: initial_calc split: option.splits sum.splits)
  from while_ok_expands [OF w] obtain vs0 where e0: "expands rs (Recipe n items) vs0"
    by (auto simp: initial_def)
  from e0 obtain vss where
    la: "list_all2 (\<lambda>it vs. \<exists>c. rs (item_name it) = Some c \<and> expands rs c vs) items vss"
    and vs0: "vs0 = concat (map2 (\<lambda>it vs. scale (quantity it) vs) items vss)"
    by (rule expands_RecipeE)
  from expands_summary [OF e0] assms
  have sP: "sorted_items (tally vs0) = Inr (ingredients dP)" and t: "cookTime dP = vtime vs0"
    by (auto split: sum.splits)
  from la have len: "length items = length vss" by (rule list_all2_lengthD)
  have ok: "\<exists>its. sorted_items (tally vs) = Inr its" if "vs \<in> set vss" for vs
  proof -
    from that names_concat [OF len] vs0 have "fst ` set vs \<subseteq> fst ` set vs0" by auto
    then have "fst ` set (tally vs) \<subseteq> fst ` set (tally vs0)" by (simp add: tally_facts(3))
    with sorted_items_subset [OF tally_facts(2) tally_facts(2) _ sP] show ?thesis by blast
  qed
  from la have "list_all2 (\<lambda>it vs. \<exists>c. rs (item_name it) = Some c \<and> expands rs c vs \<and>
                        (\<exists>its. sorted_items (tally vs) = Inr its)) items vss"
    by (rule list.rel_mono_strong) (use ok in blast)
  from children_summaries [OF this] obtain ds where ds:
    "list_all2 (\<lambda>it d. \<exists>c. rs (item_name it) = Some c \<and>
                        calculate_recipe_summary rs c = Some (Inr d)) items ds"
    "vtime vs0 = (\<Sum>(it, d)\<leftarrow>zip items ds. quantity it * cookTime d)"
    "\<And>x. vcount vs0 x = (\<Sum>(it, d)\<leftarrow>zip items ds. quantity it * counter_get (ingredients d) x)"
    unfolding vs0 by blast
  have "counter_get (ingredients dP) x = vcount vs0 x" for x
    using sorted_items_get [OF tally_facts(2) sP, of x] by (simp add: tally_facts(1))
  with ds t show ?thesis by auto
qed

theorem expansion_linear_witness:
  "\<exists>d. calculate_recipe_summary pancake_store batter = Some (Inr d) \<and>
       (36::int) = 3 * cookTime d \<and>
       (\<forall>x. counter_get [(KStr ''Egg'', 6), (KStr ''Flour'', 3)] x
            = 3 * counter_get (ingredients d) x)"
proof -
  have p: "calculate_recipe_summary pancake_store
             (Recipe (KStr ''Pancake'') [\<lparr>item_name = KStr ''Batter'', quantity = 3\<rparr>])
           = Some (Inr \<lparr>summary_name = KStr ''Pancake'', cookTime = 36,
                        ingredients = [(KStr ''Egg'', 6), (KStr ''Flour'', 3)]\<rparr>)"
    by code_simp
  have b: "pancake_store (KStr ''Batter'') = Some batter"
    by (simp add: pancake_store_def batter_def)
  from expansion_linear [OF p] obtain ds where ds:
    "list_all2 (\<lambda>it d. \<exists>c. pancake_store (item_name it) = Some c \<and>
                        calculate_recipe_summary pancake_store c = Some (Inr d))
       [\<lparr>item_name = KStr ''Batter'', quantity = 3\<rparr>] ds"
    "(36::int) = (\<Sum>(it, d)\<leftarrow>zip [\<lparr>item_name = KStr ''Batter'', quantity = 3\<rparr>] ds.
                    quantity it * cookTime d)"
    "\<And>x. counter_get [(KStr ''Egg'', 6), (KStr ''Flour'', 3)] x
          = (\<Sum>(it, d)\<leftarrow>zip [\<lparr>item_name = KStr ''Batter'', quantity = 3\<rparr>] ds.
                    quantity it * counter_get (ingredients d) x)"
    by auto
  from ds(1) b obtain d where d: "ds = [d]"
    "calculate_recipe_summary pancake_store batter = Some (Inr d)"
    by (auto simp: list_all2_Cons1)
  with ds(2,3) show ?thesis by auto
qed

end
